theory Spec2Isabelle
  imports Main
begin

section \<open>The resumption context (coroutine.h, lines 39-68)\<close>

text \<open>
  \<^verbatim>\<open>typedef struct { CO_LABEL_TYPE label; } co_ctx_t;\<close> with \<^verbatim>\<open>CO_LABEL_TYPE\<close> defaulting to
  \<^verbatim>\<open>int\<close>. Every value the program stores into the label is a compile-time constant
  (\<^verbatim>\<open>0\<close>, \<^verbatim>\<open>-1\<close>, \<^verbatim>\<open>(label)\<close>, \<^verbatim>\<open>-(label)-1\<close> with \<^verbatim>\<open>label\<close> a line number or a counter
  value plus one), no arithmetic is done on it at run time, so the label is an \<open>int\<close>.
\<close>

record co_ctx_t =
  label :: int

definition CO_CTX_INIT :: co_ctx_t where
  "CO_CTX_INIT = \<lparr>label = 0\<rparr>"

text \<open>\<^verbatim>\<open>#define co_restart__(ctx) ((void)((ctx)->label = 0))\<close>\<close>

definition co_restart :: "'z co_ctx_t_scheme \<Rightarrow> 'z co_ctx_t_scheme" where
  "co_restart c = c\<lparr>label := 0\<rparr>"

text \<open>\<^verbatim>\<open>#define co_is_ready__(ctx) ((ctx)->label == -1)\<close>\<close>

definition co_is_ready :: "'z co_ctx_t_scheme \<Rightarrow> bool" where
  "co_is_ready c = (label c = - 1)"

text \<open>
  \<^verbatim>\<open>#define co_is_child() (*_co_label_ < -1)\<close> and
  \<^verbatim>\<open>#define co_is_parent() (!co_is_child())\<close>: both read the label through the pointer
  \<^verbatim>\<open>_co_label_\<close> that \<^verbatim>\<open>co_reenter\<close> binds to \<^verbatim>\<open>&(ctx)->label\<close>; the argument is the value
  found there.
\<close>

definition co_is_child :: "int \<Rightarrow> bool" where
  "co_is_child l = (l < - 1)"

definition co_is_parent :: "int \<Rightarrow> bool" where
  "co_is_parent l = (\<not> co_is_child l)"

section \<open>The C++ wrapper (coroutine.hpp, lines 44-68)\<close>

text \<open>
  \<^verbatim>\<open>class Coroutine\<close> holds one private member \<^verbatim>\<open>co_ctx_t ctx_ CO_CTX_INIT;\<close> (the field
  \<open>ctx\<close> here: a name cannot end in an underscore).
  \<^verbatim>\<open>to_co_ctx\<close> returns the address of that member, so what \<^verbatim>\<open>co_restart(this)\<close> writes
  through it is written to the member.
\<close>

record Coroutine =
  ctx :: co_ctx_t

definition Coroutine_new :: Coroutine where
  "Coroutine_new = \<lparr>ctx = CO_CTX_INIT\<rparr>"

definition to_co_ctx :: "Coroutine \<Rightarrow> co_ctx_t" where
  "to_co_ctx coro = ctx coro"

definition restart :: "Coroutine \<Rightarrow> Coroutine" where
  "restart coro = coro\<lparr>ctx := co_restart (to_co_ctx coro)\<rparr>"

definition is_ready :: "Coroutine \<Rightarrow> bool" where
  "is_ready coro = (label (ctx coro) = - 1)"

definition is_child :: "Coroutine \<Rightarrow> bool" where
  "is_child coro = (label (ctx coro) < - 1)"

definition is_parent :: "Coroutine \<Rightarrow> bool" where
  "is_parent coro = (\<not> is_child coro)"

section \<open>The control statements the macros are written in\<close>

text \<open>
  \<^verbatim>\<open>co_reenter\<close>, \<^verbatim>\<open>co_yield\<close> and \<^verbatim>\<open>co_fork\<close> are statement prefixes built from
  \<^verbatim>\<open>for\<close>, \<^verbatim>\<open>if\<close>, \<^verbatim>\<open>switch\<close>, \<^verbatim>\<open>case\<close>, \<^verbatim>\<open>goto\<close>, \<^verbatim>\<open>break\<close> and \<^verbatim>\<open>continue\<close>; what they do
  is what C does with those statements. The expressions they use read the label through
  \<^verbatim>\<open>_co_label_\<close> (\<open>Deref\<close>), name the pointer itself (\<open>Ptr\<close>), or are constants.
\<close>

datatype expr =
    Num int
  | Deref
  | Ptr
  | Eq expr expr
  | Ne expr expr

text \<open>
  \<open>eval a l e\<close>: the value of \<open>e\<close> where \<open>a\<close> is the value of the pointer \<^verbatim>\<open>_co_label_\<close>
  (the address of the label, as an integer) and \<open>l\<close> the label stored there.
  A comparison yields 1 or 0.
\<close>

fun eval :: "int \<Rightarrow> int \<Rightarrow> expr \<Rightarrow> int" where
  "eval a l (Num n) = n"
| "eval a l Deref = l"
| "eval a l Ptr = a"
| "eval a l (Eq x y) = (if eval a l x = eval a l y then 1 else 0)"
| "eval a l (Ne x y) = (if eval a l x \<noteq> eval a l y then 1 else 0)"

text \<open>
  The statements. \<open>Do x\<close> is a statement of the coroutine's author (an expression
  statement, a call), observed as the event \<open>x\<close>. The clauses of a \<^verbatim>\<open>for\<close> header are
  an optional store to \<^verbatim>\<open>*_co_label_\<close>, an optional condition and an optional store.
\<close>

datatype 'a stmt =
    Null
  | Do 'a
  | Seq "'a stmt" "'a stmt"
  | If expr "'a stmt" "'a stmt"
  | For "expr option" "expr option" "expr option" "'a stmt"
  | Switch expr "'a stmt"
  | Case int "'a stmt"
  | Labelled string "'a stmt"
  | Goto string
  | Break
  | Continue

text \<open>
  The state of one invocation: the context, and the events so far, each with the label
  that was stored when it happened (so \<^verbatim>\<open>co_is_child()\<close> at that point, or the label of
  a copy of the context made at that point, can be read off).
\<close>

record 'a state = co_ctx_t +
  trace :: "('a \<times> int) list"

datatype mode = Run | Seek_case int | Seek_label string

datatype outcome = Normal | Brk | Cont | Jump string | Seeking | Timeout

definition store :: "int \<Rightarrow> expr option \<Rightarrow> 'a state \<Rightarrow> 'a state" where
  "store a eo s = (case eo of None \<Rightarrow> s | Some e \<Rightarrow> s\<lparr>label := eval a (label s) e\<rparr>)"

definition holds :: "int \<Rightarrow> expr option \<Rightarrow> 'a state \<Rightarrow> bool" where
  "holds a eo s = (case eo of None \<Rightarrow> True | Some e \<Rightarrow> eval a (label s) e \<noteq> 0)"

definition emit :: "'a \<Rightarrow> 'a state \<Rightarrow> 'a state" where
  "emit x s = s\<lparr>trace := trace s @ [(x, label s)]\<rparr>"

text \<open>
  \<open>exec n a m st s\<close> enters the statement \<open>st\<close> in mode \<open>m\<close>: \<open>Run\<close> executes it from
  its start; \<open>Seek_case v\<close> and \<open>Seek_label l\<close> are a \<^verbatim>\<open>switch\<close> on the value \<open>v\<close> and a
  \<^verbatim>\<open>goto l\<close> looking for their target inside \<open>st\<close>, executing nothing until it is found
  and everything after it. The outcome says how control leaves \<open>st\<close>: at its end
  (\<open>Normal\<close>), by \<^verbatim>\<open>break\<close> or \<^verbatim>\<open>continue\<close> looking for the enclosing loop or
  switch, by a \<^verbatim>\<open>goto\<close> whose label is not inside (\<open>Jump\<close>), still looking for the
  target (\<open>Seeking\<close>), or not at all within \<open>n\<close> iterations of each loop (\<open>Timeout\<close>).
  A \<^verbatim>\<open>case\<close> label belongs to the innermost enclosing \<^verbatim>\<open>switch\<close>, so a search for a case
  does not look into a nested \<^verbatim>\<open>switch\<close>; a \<^verbatim>\<open>switch\<close> with no matching case and no
  \<^verbatim>\<open>default\<close> executes nothing. A loop entered at a label inside its body runs the rest
  of the body and then goes on with the header's third clause and condition.
\<close>

function exec :: "nat \<Rightarrow> int \<Rightarrow> mode \<Rightarrow> 'a stmt \<Rightarrow> 'a state \<Rightarrow> outcome \<times> 'a state"
  and loop :: "nat \<Rightarrow> int \<Rightarrow> expr option \<Rightarrow> expr option \<Rightarrow> 'a stmt \<Rightarrow> 'a state \<Rightarrow> outcome \<times> 'a state"
  and iter :: "nat \<Rightarrow> int \<Rightarrow> expr option \<Rightarrow> expr option \<Rightarrow> 'a stmt \<Rightarrow> outcome \<times> 'a state \<Rightarrow> outcome \<times> 'a state"
where
  "exec n a m Null s = (if m = Run then (Normal, s) else (Seeking, s))"
| "exec n a m (Do x) s = (if m = Run then (Normal, emit x s) else (Seeking, s))"
| "exec n a m (Goto l) s = (if m = Run then (Jump l, s) else (Seeking, s))"
| "exec n a m Break s = (if m = Run then (Brk, s) else (Seeking, s))"
| "exec n a m Continue s = (if m = Run then (Cont, s) else (Seeking, s))"
| "exec n a m (Seq s1 s2) s =
     (case exec n a m s1 s of
        (Normal, s') \<Rightarrow> exec n a Run s2 s'
      | (Seeking, s') \<Rightarrow> exec n a m s2 s'
      | r \<Rightarrow> r)"
| "exec n a m (If c s1 s2) s =
     (if m = Run then (if eval a (label s) c \<noteq> 0 then exec n a Run s1 s else exec n a Run s2 s)
      else (case exec n a m s1 s of
              (Seeking, s') \<Rightarrow> exec n a m s2 s'
            | r \<Rightarrow> r))"
| "exec n a m (Case v b) s = (if m = Seek_case v then exec n a Run b s else exec n a m b s)"
| "exec n a m (Labelled l b) s = (if m = Seek_label l then exec n a Run b s else exec n a m b s)"
| "exec n a m (Switch e b) s =
     (case m of
        Seek_case v \<Rightarrow> (Seeking, s)
      | _ \<Rightarrow>
        (case exec n a (if m = Run then Seek_case (eval a (label s) e) else m) b s of
           (Brk, s') \<Rightarrow> (Normal, s')
         | (Seeking, s') \<Rightarrow> (if m = Run then (Normal, s') else (Seeking, s'))
         | r \<Rightarrow> r))"
| "exec n a m (For i c u b) s =
     (if m = Run then loop n a c u b (store a i s)
      else iter n a c u b (exec n a m b s))"
| "loop n a c u b s =
     (if \<not> holds a c s then (Normal, s)
      else (case n of
              0 \<Rightarrow> (Timeout, s)
            | Suc k \<Rightarrow> iter k a c u b (exec k a Run b s)))"
| "iter n a c u b r =
     (case r of
        (Normal, s') \<Rightarrow> loop n a c u b (store a u s')
      | (Cont, s') \<Rightarrow> loop n a c u b (store a u s')
      | (Brk, s') \<Rightarrow> (Normal, s')
      | _ \<Rightarrow> r)"
  by pat_completeness auto
termination
  by (relation "inv_image (less_than <*lex*> less_than)
        (\<lambda>x. case x of
           Inl (n, a, m, st, s) \<Rightarrow> (n, 3 * size st)
         | Inr (Inl (n, a, c, u, b, s)) \<Rightarrow> (n, 3 * size b + 1)
         | Inr (Inr (n, a, c, u, b, r)) \<Rightarrow> (n, 3 * size b + 2))")
     auto

text \<open>
  A function whose body is \<open>f\<close>: a \<^verbatim>\<open>goto\<close> that left \<open>f\<close> looking for its label
  finds it from the top of the function body.
\<close>

fun call :: "nat \<Rightarrow> int \<Rightarrow> mode \<Rightarrow> 'a stmt \<Rightarrow> 'a state \<Rightarrow> outcome \<times> 'a state" where
  "call 0 a m f s = (Timeout, s)"
| "call (Suc n) a m f s =
     (case exec n a m f s of
        (Jump l, s') \<Rightarrow> call n a (Seek_label l) f s'
      | r \<Rightarrow> r)"

section \<open>The macros (coroutine.h, lines 109-230)\<close>

text \<open>
  \<^verbatim>\<open>
  #define co_reenter__(ctx) \
      for (CO_LABEL_TYPE *const _co_label_ = &(ctx)->label; \
              *_co_label_ != -1; *_co_label_ = -1) \
          if (0) { \
              goto _co_continue_; \
          _co_continue_: \
              continue; \
          } else if (0) { \
              goto _co_break_; \
          _co_break_: \
              break; \
          } else \
              switch (*_co_label_) \
              case 0:
  \<close>
  followed by the body. The first clause of the header binds the pointer, which is the
  parameter \<open>a\<close> of \<open>exec\<close>; it stores nothing.
\<close>

definition co_reenter :: "'a stmt \<Rightarrow> 'a stmt" where
  "co_reenter body =
     For None (Some (Ne Deref (Num (- 1)))) (Some (Num (- 1)))
       (If (Num 0)
          (Seq (Goto ''_co_continue_'') (Labelled ''_co_continue_'' Continue))
          (If (Num 0)
             (Seq (Goto ''_co_break_'') (Labelled ''_co_break_'' Break))
             (Switch Deref (Case 0 body))))"

text \<open>
  \<^verbatim>\<open>
  #define co_yield__(label) \
      for (*_co_label_ = (label);;) \
          if (0) { \
              case (label): \
                  break; \
          } else \
              switch (0) \
                  for (;;) \
                      if (1) \
                          goto _co_continue_; \
                      else \
                          for (;;) \
                              if (1) \
                                  goto _co_break_; \
                              else /* falls through */ \
                              case 0:
  \<close>
  followed by the statement \<open>t\<close> that the author writes after the keyword.
\<close>

definition co_yield :: "int \<Rightarrow> 'a stmt \<Rightarrow> 'a stmt" where
  "co_yield lbl t =
     For (Some (Num lbl)) None None
       (If (Num 0)
          (Case lbl Break)
          (Switch (Num 0)
             (For None None None
                (If (Num 1)
                   (Goto ''_co_continue_'')
                   (For None None None
                      (If (Num 1)
                         (Goto ''_co_break_'')
                         (Case 0 t)))))))"

text \<open>
  \<^verbatim>\<open>
  #define co_fork__(label) \
      for (*_co_label_ = -(label)-1;; *_co_label_ = (label)) \
          if (_co_label_ == (label)) { \
          case -(label)-1: break; \
          } else
  \<close>
  followed by the statement \<open>t\<close>. The condition compares the pointer \<^verbatim>\<open>_co_label_\<close>, not
  the label it points to, with \<^verbatim>\<open>(label)\<close>.
\<close>

definition co_fork :: "int \<Rightarrow> 'a stmt \<Rightarrow> 'a stmt" where
  "co_fork lbl t =
     For (Some (Num (- lbl - 1))) None (Some (Num lbl))
       (If (Eq Ptr (Num lbl))
          (Case (- lbl - 1) Break)
          t)"

section \<open>Coroutine bodies\<close>

text \<open>
  What may follow the keyword \<^verbatim>\<open>co_yield\<close>: nothing (\<^verbatim>\<open>co_yield;\<close>), an expression
  (\<^verbatim>\<open>co_yield e;\<close>), \<^verbatim>\<open>break\<close> or \<^verbatim>\<open>continue\<close>.
\<close>

datatype 'a operand = Nothing | Expr 'a | Kw_break | Kw_continue

fun operand_stmt :: "'a operand \<Rightarrow> 'a stmt" where
  "operand_stmt Nothing = Null"
| "operand_stmt (Expr e) = Do e"
| "operand_stmt Kw_break = Break"
| "operand_stmt Kw_continue = Continue"

text \<open>
  A straight-line body: ordinary statements, suspend points \<^verbatim>\<open>co_yield\<close> and branch points
  \<^verbatim>\<open>co_fork e;\<close>, each with the value \<^verbatim>\<open>co_label__\<close> has at its line.
\<close>

datatype 'a item = Plain 'a | Yield int "'a operand" | Fork int 'a

fun item_stmt :: "'a item \<Rightarrow> 'a stmt" where
  "item_stmt (Plain x) = Do x"
| "item_stmt (Yield lbl t) = co_yield lbl (operand_stmt t)"
| "item_stmt (Fork lbl e) = co_fork lbl (Do e)"

fun block :: "'a stmt list \<Rightarrow> 'a stmt" where
  "block [] = Null"
| "block (st # sts) = Seq st (block sts)"

definition region :: "'a item list \<Rightarrow> 'a stmt" where
  "region items = block (map item_stmt items)"

text \<open>
  One invocation of the function \<^verbatim>\<open>void f(co_ctx_t *ctx) { co_reenter (ctx) body }\<close> on
  the context \<open>c\<close> stored at address \<open>a\<close>: the outcome, the context afterwards and
  the events of the invocation.
\<close>

definition invoke :: "nat \<Rightarrow> int \<Rightarrow> 'a stmt \<Rightarrow> co_ctx_t \<Rightarrow> outcome \<times> 'a state" where
  "invoke n a body c = call n a Run (co_reenter body) \<lparr>label = label c, trace = []\<rparr>"

text \<open>
  The caller invoking the function \<open>k\<close> times in a row on the same context: the
  results of the invocations, in order. An invocation that does not return is the last.
\<close>

fun drive :: "nat \<Rightarrow> nat \<Rightarrow> int \<Rightarrow> 'a stmt \<Rightarrow> co_ctx_t \<Rightarrow> (outcome \<times> 'a state) list" where
  "drive 0 n a body c = []"
| "drive (Suc k) n a body c =
     (case invoke n a body c of
        (Normal, s) \<Rightarrow> (Normal, s) # drive k n a body \<lparr>label = label s\<rparr>
      | r \<Rightarrow> [r])"

section \<open>Regions with suspend points in body order\<close>

text \<open>
  \<open>chain [(seg\<^sub>1, id\<^sub>1, t\<^sub>1), \<dots>, (seg\<^sub>k, id\<^sub>k, t\<^sub>k)] final\<close> is the straight-line body
  with the suspend points \<open>P\<^sub>1 < \<dots> < P\<^sub>k\<close>: the ordinary statements \<open>seg\<^sub>1\<close>,
  \<^verbatim>\<open>co_yield t\<close>\<open>\<^sub>1\<close> with id \<open>id\<^sub>1\<close>, \<dots>, \<^verbatim>\<open>co_yield t\<close>\<open>\<^sub>k\<close>, and the ordinary statements \<open>final\<close>.
\<close>

type_synonym 'a part = "'a list \<times> int \<times> 'a operand"

fun chain :: "'a part list \<Rightarrow> 'a list \<Rightarrow> 'a item list" where
  "chain [] final = map Plain final"
| "chain ((seg, lbl, t) # ps) final = map Plain seg @ Yield lbl t # chain ps final"

text \<open>
  What the specification expects of \<open>k + 1\<close> invocations in a row of such a body
  (section 8, resume at the exact point), to be compared with \<open>drive\<close>: invocation
  \<open>j\<close>, entered with the label \<open>l\<close> the one before left, executes the statements
  \<open>seg\<^sub>j\<close> and the expression of suspend point \<open>j\<close>, if it has one, and leaves the label
  \<open>id\<^sub>j\<close>; the last executes \<open>final\<close> and leaves \<open>-1\<close>.
\<close>

fun operand_events :: "int \<Rightarrow> 'a operand \<Rightarrow> ('a \<times> int) list" where
  "operand_events lbl (Expr e) = [(e, lbl)]"
| "operand_events lbl t = []"

fun visits :: "int \<Rightarrow> 'a part list \<Rightarrow> 'a list \<Rightarrow> (outcome \<times> 'a state) list" where
  "visits l [] final = [(Normal, \<lparr>label = - 1, trace = map (\<lambda>x. (x, l)) final\<rparr>)]"
| "visits l ((seg, lbl, t) # ps) final =
     (Normal, \<lparr>label = lbl, trace = map (\<lambda>x. (x, l)) seg @ operand_events lbl t\<rparr>)
       # visits lbl ps final"

text \<open>The statements and expressions of a body, in body order.\<close>

fun statements :: "'a item list \<Rightarrow> 'a list" where
  "statements [] = []"
| "statements (Plain x # r) = x # statements r"
| "statements (Yield lbl (Expr e) # r) = e # statements r"
| "statements (Yield lbl t # r) = statements r"
| "statements (Fork lbl e # r) = e # statements r"

section \<open>Auxiliary definitions\<close>

text \<open>\<open>emits xs s\<close>: the state after the ordinary statements \<open>xs\<close>, run from \<open>s\<close>.\<close>

definition emits :: "'a list \<Rightarrow> 'a state \<Rightarrow> 'a state" where
  "emits xs s = s\<lparr>trace := trace s @ map (\<lambda>x. (x, label s)) xs\<rparr>"

text \<open>
  \<open>yielded lbl t s\<close>: how control leaves \<^verbatim>\<open>co_yield t;\<close> entered from its start in
  state \<open>s\<close> (lemma \<open>yield_run\<close>).
\<close>

fun yielded :: "int \<Rightarrow> 'a operand \<Rightarrow> 'a state \<Rightarrow> outcome \<times> 'a state" where
  "yielded lbl Nothing s = (Jump ''_co_break_'', s\<lparr>label := lbl\<rparr>)"
| "yielded lbl (Expr e) s = (Jump ''_co_break_'', emit e (s\<lparr>label := lbl\<rparr>))"
| "yielded lbl Kw_break s = (Jump ''_co_continue_'', s\<lparr>label := lbl\<rparr>)"
| "yielded lbl Kw_continue s = (Jump ''_co_break_'', s\<lparr>label := lbl\<rparr>)"

text \<open>
  \<open>fork_spin k lbl e s\<close>: the state after \<open>k\<close> rounds of the loop of \<^verbatim>\<open>co_fork e;\<close>
  in which the condition was false: \<open>e\<close> is evaluated, then \<^verbatim>\<open>*_co_label_ = (label)\<close>.
\<close>

fun fork_spin :: "nat \<Rightarrow> int \<Rightarrow> 'a \<Rightarrow> 'a state \<Rightarrow> 'a state" where
  "fork_spin 0 lbl e s = s"
| "fork_spin (Suc k) lbl e s = fork_spin k lbl e ((emit e s)\<lparr>label := lbl\<rparr>)"

text \<open>\<open>has_case v x\<close>: the item \<open>x\<close> carries the label \<^verbatim>\<open>case v:\<close> of the region's switch.\<close>

fun has_case :: "int \<Rightarrow> 'a item \<Rightarrow> bool" where
  "has_case v (Plain x) = False"
| "has_case v (Yield lbl t) = (v = lbl)"
| "has_case v (Fork lbl e) = (v = - lbl - 1)"

text \<open>
  \<open>target v items\<close>: the statements that follow the label \<^verbatim>\<open>case v:\<close> in the switch of
  \<^verbatim>\<open>co_reenter\<close>, if the body has it: \<^verbatim>\<open>case 0:\<close> stands before the body, and the case
  label inside a suspend or branch point leads, by the \<^verbatim>\<open>break\<close> after it, out of that
  point's own loop to the statement after the point (lemma \<open>enter_target\<close>).
\<close>

fun after_case :: "int \<Rightarrow> 'a item list \<Rightarrow> 'a item list option" where
  "after_case v [] = None"
| "after_case v (x # r) = (if has_case v x then Some r else after_case v r)"

definition target :: "int \<Rightarrow> 'a item list \<Rightarrow> 'a item list option" where
  "target v items = (if v = 0 then Some items else after_case v items)"

text \<open>
  \<open>enter n a body c\<close>: the switch of \<^verbatim>\<open>co_reenter\<close> on the label of \<open>c\<close>, whose body is
  \<^verbatim>\<open>case 0:\<close> followed by \<open>body\<close>.
\<close>

definition enter :: "nat \<Rightarrow> int \<Rightarrow> 'a stmt \<Rightarrow> co_ctx_t \<Rightarrow> outcome \<times> 'a state" where
  "enter n a body c =
     (if label c = 0 then exec n a Run body \<lparr>label = label c, trace = []\<rparr>
      else exec n a (Seek_case (label c)) body \<lparr>label = label c, trace = []\<rparr>)"

text \<open>\<open>leave r\<close>: the loop of \<^verbatim>\<open>co_reenter\<close> after its switch has been left with \<open>r\<close>.\<close>

fun leave :: "outcome \<times> 'a state \<Rightarrow> outcome \<times> 'a state" where
  "leave (Jump l, s) = (Jump l, s)"
| "leave (Timeout, s) = (Timeout, s)"
| "leave (r, s) = (Normal, s\<lparr>label := - 1\<rparr>)"

section \<open>Loops, and the macros one by one\<close>

declare loop.simps [simp del] iter.simps [simp del]

lemma loop_exit: "\<not> holds a c s \<Longrightarrow> loop n a c u b s = (Normal, s)"
  by (simp add: loop.simps)

lemma loop_timeout: "holds a c s \<Longrightarrow> loop 0 a c u b s = (Timeout, s)"
  by (simp add: loop.simps)

lemma loop_step: "holds a c s \<Longrightarrow> loop (Suc k) a c u b s = iter k a c u b (exec k a Run b s)"
  by (simp add: loop.simps)

lemma iter_simps [simp]:
  "iter n a c u b (Normal, s) = loop n a c u b (store a u s)"
  "iter n a c u b (Cont, s) = loop n a c u b (store a u s)"
  "iter n a c u b (Brk, s) = (Normal, s)"
  "iter n a c u b (Jump l, s) = (Jump l, s)"
  "iter n a c u b (Seeking, s) = (Seeking, s)"
  "iter n a c u b (Timeout, s) = (Timeout, s)"
  by (simp_all add: iter.simps)

lemma holds_None [simp]: "holds a None s"
  by (simp add: holds_def)

lemma store_None [simp]: "store a None s = s"
  by (simp add: store_def)

lemma store_Num [simp]: "store a (Some (Num v)) s = s\<lparr>label := v\<rparr>"
  by (simp add: store_def)

lemma label_emit [simp]: "label (emit x s) = label s"
  by (simp add: emit_def)

lemma trace_emit [simp]: "trace (emit x s) = trace s @ [(x, label s)]"
  by (simp add: emit_def)

lemma yield_seek:
  "exec n a (Seek_case v) (co_yield N t) s = (if v = N then (Normal, s) else (Seeking, s))"
  by (simp add: co_yield_def)

lemma fork_seek:
  "exec n a (Seek_case v) (co_fork N (Do e)) s = (if v = - N - 1 then (Normal, s) else (Seeking, s))"
  by (simp add: co_fork_def)


lemma fork_loop_diverges:
  "a \<noteq> N \<Longrightarrow>
   loop n a None (Some (Num N)) (If (Eq Ptr (Num N)) (Case (- N - 1) Break) (Do e)) s =
     (Timeout, fork_spin n N e s)"
proof (induction n arbitrary: s)
  case 0
  then show ?case by (simp add: loop_timeout)
next
  case (Suc n)
  then show ?case by (simp add: loop_step)
qed

lemma fork_run:
  "a \<noteq> N \<Longrightarrow> exec n a Run (co_fork N (Do e)) s = (Timeout, fork_spin n N e (s\<lparr>label := - N - 1\<rparr>))"
  by (simp add: co_fork_def fork_loop_diverges)

lemma fork_run_same:
  "exec (Suc n) N Run (co_fork N (Do e)) s = (Normal, s\<lparr>label := - N - 1\<rparr>)"
  by (simp add: co_fork_def loop_step)

lemma label_fork_spin: "label (fork_spin n N e s) = (if n = 0 then label s else N)"
  by (induction n arbitrary: s) auto

lemma trace_fork_spin_same:
  "label s = N \<Longrightarrow> trace (fork_spin n N e s) = trace s @ replicate n (e, N)"
  by (induction n arbitrary: s) (simp_all add: replicate_app_Cons_same)

lemma reenter_seek_break:
  "exec n a (Seek_label ''_co_break_'') (co_reenter body) s = (Normal, s)"
  by (simp add: co_reenter_def)

lemma reenter_seek_continue:
  "exec n a (Seek_label ''_co_continue_'') (co_reenter body) s = (Normal, s\<lparr>label := - 1\<rparr>)"
  by (simp add: co_reenter_def loop_exit holds_def)

lemma reenter_ready:
  "label s = - 1 \<Longrightarrow> exec n a Run (co_reenter body) s = (Normal, s)"
  by (simp add: co_reenter_def loop_exit holds_def)

lemma reenter_run:
  "label s \<noteq> - 1 \<Longrightarrow>
   exec (Suc n) a Run (co_reenter body) s =
     leave (if label s = 0 then exec n a Run body s else exec n a (Seek_case (label s)) body s)"
  apply (simp add: co_reenter_def loop_step holds_def)
  apply (auto split: prod.splits outcome.splits simp: loop_exit holds_def)
  done


lemma region_Nil: "region [] = Null"
  by (simp add: region_def)

lemma region_Cons: "region (x # xs) = Seq (item_stmt x) (region xs)"
  by (simp add: region_def)

lemma emits_Nil [simp]: "emits [] s = s"
  by (simp add: emits_def)

lemma emits_Cons [simp]: "emits (x # xs) s = emits xs (emit x s)"
  by (simp add: emits_def emit_def)

lemma label_emits [simp]: "label (emits xs s) = label s"
  by (simp add: emits_def)

lemma trace_emits [simp]: "trace (emits xs s) = trace s @ map (\<lambda>x. (x, label s)) xs"
  by (simp add: emits_def)

lemma yield_run:
  "exec (Suc (Suc n)) a Run (item_stmt (Yield N t)) s = yielded N t s"
  by (cases t) (simp_all add: co_yield_def loop_step)

lemma seek_item:
  "exec n a (Seek_case v) (item_stmt x) s = (if has_case v x then (Normal, s) else (Seeking, s))"
  by (cases x) (simp_all add: yield_seek fork_seek)

declare item_stmt.simps [simp del]

lemma run_nil [simp]: "exec n a Run (region []) s = (Normal, s)"
  by (simp add: region_Nil)

lemma run_plain [simp]:
  "exec n a Run (region (Plain x # r)) s = exec n a Run (region r) (emit x s)"
  by (simp add: region_Cons item_stmt.simps)

lemma run_plains:
  "exec n a Run (region (map Plain xs @ r)) s = exec n a Run (region r) (emits xs s)"
  by (induction xs arbitrary: s) simp_all

lemma run_yield:
  "exec (Suc (Suc n)) a Run (region (Yield N t # r)) s = yielded N t s"
  by (cases t) (simp_all add: region_Cons yield_run)

lemma run_fork:
  "a \<noteq> N \<Longrightarrow>
   exec n a Run (region (Fork N e # r)) s = (Timeout, fork_spin n N e (s\<lparr>label := - N - 1\<rparr>))"
  by (simp add: region_Cons fork_run item_stmt.simps)

lemma run_fork_same:
  "exec (Suc n) N Run (region (Fork N e # r)) s = exec (Suc n) N Run (region r) (s\<lparr>label := - N - 1\<rparr>)"
  by (simp add: region_Cons fork_run_same item_stmt.simps)

lemma seek_nil [simp]: "exec n a (Seek_case v) (region []) s = (Seeking, s)"
  by (simp add: region_Nil)

lemma seek_cons:
  "exec n a (Seek_case v) (region (x # r)) s =
     (if has_case v x then exec n a Run (region r) s else exec n a (Seek_case v) (region r) s)"
  by (simp add: region_Cons seek_item)

lemma invoke_ready:
  "label c = - 1 \<Longrightarrow> invoke (Suc n) a body c = (Normal, \<lparr>label = - 1, trace = []\<rparr>)"
  by (simp add: invoke_def reenter_ready)

lemma invoke_suspend:
  "label c \<noteq> - 1 \<Longrightarrow> enter n a body c = (Jump ''_co_break_'', s') \<Longrightarrow>
   invoke (Suc (Suc n)) a body c = (Normal, s')"
  by (simp add: invoke_def reenter_run enter_def reenter_seek_break split: if_splits)

lemma invoke_terminate:
  "label c \<noteq> - 1 \<Longrightarrow> enter n a body c = (Jump ''_co_continue_'', s') \<Longrightarrow>
   invoke (Suc (Suc n)) a body c = (Normal, s'\<lparr>label := - 1\<rparr>)"
  by (simp add: invoke_def reenter_run enter_def reenter_seek_continue split: if_splits)

lemma invoke_end:
  "label c \<noteq> - 1 \<Longrightarrow> enter n a body c = (r, s') \<Longrightarrow> r \<in> {Normal, Seeking, Brk, Cont} \<Longrightarrow>
   invoke (Suc (Suc n)) a body c = (Normal, s'\<lparr>label := - 1\<rparr>)"
  by (auto simp add: invoke_def reenter_run enter_def split: if_splits)

lemma invoke_timeout:
  "label c \<noteq> - 1 \<Longrightarrow> enter n a body c = (Timeout, s') \<Longrightarrow>
   invoke (Suc (Suc n)) a body c = (Timeout, s')"
  by (auto simp add: invoke_def reenter_run enter_def split: if_splits)

section \<open>One invocation of a straight-line body\<close>

lemma seek_after_case:
  "exec n a (Seek_case v) (region items) s =
     (case after_case v items of None \<Rightarrow> (Seeking, s) | Some post \<Rightarrow> exec n a Run (region post) s)"
  by (induction items) (simp_all add: seek_cons)

lemma enter_target:
  "enter n a (region items) c =
     (case target (label c) items of
        None \<Rightarrow> (Seeking, \<lparr>label = label c, trace = []\<rparr>)
      | Some post \<Rightarrow> exec n a Run (region post) \<lparr>label = label c, trace = []\<rparr>)"
  by (simp add: enter_def target_def seek_after_case)

lemma after_case_append:
  "\<forall>y\<in>set pre. \<not> has_case v y \<Longrightarrow> has_case v x \<Longrightarrow> after_case v (pre @ x # post) = Some post"
  by (induction pre) simp_all

lemma target_start: "target 0 items = Some items"
  by (simp add: target_def)

lemma target_at:
  "v \<noteq> 0 \<Longrightarrow> \<forall>y\<in>set pre. \<not> has_case v y \<Longrightarrow> has_case v x \<Longrightarrow>
   target v (pre @ x # post) = Some post"
  by (simp add: target_def after_case_append)

lemma seek_lands:
  "v \<noteq> 0 \<Longrightarrow> \<forall>y\<in>set pre. \<not> has_case v y \<Longrightarrow> has_case v x \<Longrightarrow>
   exec n a (Seek_case v) (Case 0 (region (pre @ x # post))) s = exec n a Run (region post) s"
  by (simp add: seek_after_case after_case_append)

lemma run_end: "exec n a Run (region (map Plain seg)) s = (Normal, emits seg s)"
  using run_plains [of n a seg "[]" s] by simp

lemma run_to_yield:
  "exec (Suc (Suc n)) a Run (region (map Plain seg @ Yield N t # r)) s = yielded N t (emits seg s)"
  by (simp add: run_plains run_yield)

lemma run_to_fork:
  "a \<noteq> N \<Longrightarrow>
   exec n a Run (region (map Plain seg @ Fork N e # r)) s =
     (Timeout, fork_spin n N e ((emits seg s)\<lparr>label := - N - 1\<rparr>))"
  by (simp add: run_plains run_fork)

lemma invoke_none:
  assumes "target v items = None" and "v \<noteq> - 1"
  shows "invoke (Suc (Suc n)) a (region items) \<lparr>label = v\<rparr> = (Normal, \<lparr>label = - 1, trace = []\<rparr>)"
proof -
  have "enter n a (region items) \<lparr>label = v\<rparr> = (Seeking, \<lparr>label = v, trace = []\<rparr>)"
    using assms(1) by (simp add: enter_target)
  from invoke_end [OF _ this] assms(2) show ?thesis
    by simp
qed

lemma invoke_at_end:
  assumes "target v items = Some (map Plain seg)" and "v \<noteq> - 1"
  shows "invoke (Suc (Suc n)) a (region items) \<lparr>label = v\<rparr> =
           (Normal, \<lparr>label = - 1, trace = map (\<lambda>y. (y, v)) seg\<rparr>)"
proof -
  have "enter n a (region items) \<lparr>label = v\<rparr> = (Normal, emits seg \<lparr>label = v, trace = []\<rparr>)"
    using assms(1) by (simp add: enter_target run_end)
  from invoke_end [OF _ this] assms(2) show ?thesis
    by (simp add: emits_def)
qed

lemma invoke_at_yield:
  assumes "target v items = Some (map Plain seg @ Yield N t # r)" and "v \<noteq> - 1"
  shows "invoke (Suc (Suc (Suc (Suc n)))) a (region items) \<lparr>label = v\<rparr> =
           (Normal, \<lparr>label = (if t = Kw_break then - 1 else N),
                     trace = map (\<lambda>y. (y, v)) seg @ (case t of Expr e \<Rightarrow> [(e, N)] | _ \<Rightarrow> [])\<rparr>)"
proof -
  have e: "enter (Suc (Suc n)) a (region items) \<lparr>label = v\<rparr> =
             yielded N t (emits seg \<lparr>label = v, trace = []\<rparr>)"
    using assms(1) by (simp add: enter_target run_to_yield)
  show ?thesis
  proof (cases t)
    case Nothing
    with e invoke_suspend [of "\<lparr>label = v\<rparr>" "Suc (Suc n)" a "region items"] assms(2)
    show ?thesis by (simp add: emits_def)
  next
    case (Expr x)
    with e invoke_suspend [of "\<lparr>label = v\<rparr>" "Suc (Suc n)" a "region items"] assms(2)
    show ?thesis by (simp add: emits_def emit_def)
  next
    case Kw_break
    with e invoke_terminate [of "\<lparr>label = v\<rparr>" "Suc (Suc n)" a "region items"] assms(2)
    show ?thesis by (simp add: emits_def)
  next
    case Kw_continue
    with e invoke_suspend [of "\<lparr>label = v\<rparr>" "Suc (Suc n)" a "region items"] assms(2)
    show ?thesis by (simp add: emits_def)
  qed
qed

lemma invoke_at_fork:
  assumes "target v items = Some (map Plain seg @ Fork N e # r)" and "v \<noteq> - 1" and "a \<noteq> N"
  shows "invoke (Suc (Suc (Suc n))) a (region items) \<lparr>label = v\<rparr> =
           (Timeout, \<lparr>label = N,
                      trace = map (\<lambda>y. (y, v)) seg @ (e, - N - 1) # replicate n (e, N)\<rparr>)"
proof -
  have "enter (Suc n) a (region items) \<lparr>label = v\<rparr> =
          (Timeout, fork_spin (Suc n) N e ((emits seg \<lparr>label = v, trace = []\<rparr>)\<lparr>label := - N - 1\<rparr>))"
    using assms(1,3) by (simp add: enter_target run_to_fork del: fork_spin.simps)
  from invoke_timeout [OF _ this] assms(2) show ?thesis
    by (simp add: label_fork_spin trace_fork_spin_same emits_def emit_def)
qed

section \<open>Several invocations, statements that behave alike, branch points\<close>

lemma operand_events_eq:
  "operand_events lbl t = (case t of Expr e \<Rightarrow> [(e, lbl)] | _ \<Rightarrow> [])"
  by (cases t) simp_all

lemma fuel4: "4 \<le> n \<Longrightarrow> \<exists>m. n = Suc (Suc (Suc (Suc m)))"
proof -
  assume "4 \<le> n"
  then obtain m where "n = 4 + m"
    by (auto simp add: le_iff_add)
  then have "n = Suc (Suc (Suc (Suc m)))"
    by simp
  then show ?thesis ..
qed

lemma after_case_subset: "after_case v items = Some post \<Longrightarrow> set post \<subseteq> set items"
  by (induction items) (auto split: if_splits)

lemma target_subset: "target v items = Some post \<Longrightarrow> set post \<subseteq> set items"
  by (auto simp add: target_def dest: after_case_subset split: if_splits)

lemma plain_prefix:
  "\<exists>seg rest. post = map Plain seg @ rest \<and> (\<forall>x r. rest \<noteq> Plain x # r)"
proof (induction post)
  case Nil
  show ?case
    by (rule exI [where x = "[]"], rule exI [where x = "[]"]) simp
next
  case (Cons y post)
  then obtain seg rest where sr: "post = map Plain seg @ rest" "\<forall>x r. rest \<noteq> Plain x # r"
    by (elim exE conjE)
  show ?case
  proof (cases y)
    case (Plain x)
    show ?thesis
      by (rule exI [where x = "x # seg"], rule exI [where x = rest]) (simp add: Plain sr)
  next
    case (Yield N t)
    show ?thesis
      by (rule exI [where x = "[]"], rule exI [where x = "y # post"]) (simp add: Yield)
  next
    case (Fork N e)
    show ?thesis
      by (rule exI [where x = "[]"], rule exI [where x = "y # post"]) (simp add: Fork)
  qed
qed

lemma invoke_ctx_none:
  "target (label c) items = None \<Longrightarrow> label c \<noteq> - 1 \<Longrightarrow>
   invoke (Suc (Suc n)) a (region items) c = (Normal, \<lparr>label = - 1, trace = []\<rparr>)"
  using invoke_none [of "label c" items n a] by (cases c) simp

lemma invoke_ctx_end:
  "target (label c) items = Some (map Plain seg) \<Longrightarrow> label c \<noteq> - 1 \<Longrightarrow>
   invoke (Suc (Suc n)) a (region items) c =
     (Normal, \<lparr>label = - 1, trace = map (\<lambda>y. (y, label c)) seg\<rparr>)"
  using invoke_at_end [of "label c" items seg n a] by (cases c) simp

lemma invoke_ctx_yield:
  "target (label c) items = Some (map Plain seg @ Yield N t # r) \<Longrightarrow> label c \<noteq> - 1 \<Longrightarrow>
   invoke (Suc (Suc (Suc (Suc n)))) a (region items) c =
     (Normal, \<lparr>label = (if t = Kw_break then - 1 else N),
               trace = map (\<lambda>y. (y, label c)) seg @ operand_events N t\<rparr>)"
  using invoke_at_yield [of "label c" items seg N t r n a]
  by (cases c) (simp add: operand_events_eq)

lemma invoke_ctx_fork:
  "target (label c) items = Some (map Plain seg @ Fork N e # r) \<Longrightarrow> label c \<noteq> - 1 \<Longrightarrow>
   a \<noteq> N \<Longrightarrow>
   invoke (Suc (Suc (Suc n))) a (region items) c =
     (Timeout, \<lparr>label = N,
                trace = map (\<lambda>y. (y, label c)) seg @ (e, - N - 1) # replicate n (e, N)\<rparr>)"
  using invoke_at_fork [of "label c" items seg N e r a n] by (cases c) simp

lemma drive_chain:
  assumes "target l (pre @ chain ps final) = Some (chain ps final)"
    and "l \<noteq> - 1"
    and "\<forall>p\<in>set ps. \<forall>y\<in>set pre. \<not> has_case (fst (snd p)) y"
    and "distinct (map (\<lambda>p. fst (snd p)) ps)"
    and "\<forall>p\<in>set ps. 0 < fst (snd p) \<and> snd (snd p) \<noteq> Kw_break"
  shows "drive (Suc (length ps)) (Suc (Suc (Suc (Suc n)))) a (region (pre @ chain ps final)) \<lparr>label = l\<rparr>
           = visits l ps final"
  using assms
proof (induction ps arbitrary: pre l)
  case Nil
  then have "target l (pre @ chain [] final) = Some (map Plain final)"
    by simp
  from invoke_at_end [OF this Nil.prems(2)] show ?case
    by simp
next
  case (Cons p ps)
  obtain seg lbl t where p: "p = (seg, lbl, t)"
    by (cases p) auto
  let ?items = "pre @ chain (p # ps) final"
  let ?pre = "pre @ map Plain seg @ [Yield lbl t]"
  have items: "?items = ?pre @ chain ps final"
    by (simp add: p)
  have lbl: "0 < lbl" "t \<noteq> Kw_break"
    using Cons.prems(5) by (simp_all add: p)
  have "target l ?items = Some (map Plain seg @ Yield lbl t # chain ps final)"
    using Cons.prems(1) by (simp add: p)
  from invoke_at_yield [OF this Cons.prems(2)]
  have first: "invoke (Suc (Suc (Suc (Suc n)))) a (region ?items) \<lparr>label = l\<rparr> =
      (Normal, \<lparr>label = lbl, trace = map (\<lambda>y. (y, l)) seg @ operand_events lbl t\<rparr>)"
    using lbl(2) by (simp add: operand_events_eq)
  have nocase: "\<forall>y\<in>set (pre @ map Plain seg). \<not> has_case lbl y"
    using Cons.prems(3) by (auto simp add: p)
  have "target lbl ((pre @ map Plain seg) @ Yield lbl t # chain ps final) = Some (chain ps final)"
    using lbl(1) by (intro target_at nocase) simp_all
  then have tgt: "target lbl (?pre @ chain ps final) = Some (chain ps final)"
    by simp
  have fresh: "\<forall>q\<in>set ps. \<forall>y\<in>set ?pre. \<not> has_case (fst (snd q)) y"
    using Cons.prems(3,4) by (auto simp add: p)
  have rest: "drive (Suc (length ps)) (Suc (Suc (Suc (Suc n)))) a (region (?pre @ chain ps final))
                \<lparr>label = lbl\<rparr> = visits lbl ps final"
    using Cons.prems(4,5) lbl(1) by (intro Cons.IH tgt fresh) simp_all
  show ?case
    using first rest by (simp add: p)
qed

lemma statements_visits:
  "concat (map (\<lambda>r. map fst (trace (snd r))) (visits l ps final)) = statements (chain ps final)"
proof (induction ps arbitrary: l)
  case Nil
  show ?case by (induction final) (simp_all add: comp_def)
next
  case (Cons p ps)
  obtain seg lbl t where p: "p = (seg, lbl, t)"
    by (cases p) auto
  have "statements (map Plain seg @ r) = seg @ statements r" for r :: "'a item list"
    by (induction seg) simp_all
  then show ?case
    by (cases t) (simp_all add: p Cons.IH comp_def)
qed

lemma labels_visits:
  "map (\<lambda>r. label (snd r)) (visits l ps final) = map (\<lambda>p. fst (snd p)) ps @ [- 1]"
  by (induction ps arbitrary: l) auto

lemma drive_ready:
  "label c = - 1 \<Longrightarrow> drive k (Suc n) a body c = replicate k (Normal, \<lparr>label = - 1, trace = []\<rparr>)"
proof (induction k)
  case 0
  then show ?case by simp
next
  case (Suc k)
  have "c = \<lparr>label = - 1\<rparr>"
    using Suc.prems by (cases c) simp
  with Suc show ?case
    by (simp add: invoke_ready)
qed

lemma loop_cong:
  assumes "\<And>k s. exec k a Run b s = exec k a Run b' s"
  shows "loop n a c u b s = loop n a c u b' s \<and> iter n a c u b r = iter n a c u b' r"
proof (induction n arbitrary: s r)
  case 0
  have l: "loop 0 a c u b s = loop 0 a c u b' s" for s
    by (simp add: loop.simps)
  show ?case
    by (cases r) (simp add: l iter.simps split: outcome.splits)
next
  case (Suc n)
  have l: "loop (Suc n) a c u b s = loop (Suc n) a c u b' s" for s
    by (simp add: loop.simps assms Suc.IH)
  show ?case
    by (cases r) (simp add: l iter.simps split: outcome.splits)
qed

lemma loop_cong1:
  "(\<And>k s. exec k a Run b s = exec k a Run b' s) \<Longrightarrow> loop n a c u b s = loop n a c u b' s"
  using loop_cong by blast

lemma iter_cong1:
  "(\<And>k s. exec k a Run b s = exec k a Run b' s) \<Longrightarrow> iter n a c u b r = iter n a c u b' r"
  using loop_cong by blast

lemma yield_continue_stmt:
  "exec n a m (co_yield lbl Continue) s = exec n a m (co_yield lbl Null) s"
proof -
  let ?B3 = "\<lambda>t. If (Num 1) (Goto ''_co_break_'') (Case 0 t)"
  let ?B2 = "\<lambda>t. If (Num 1) (Goto ''_co_continue_'') (For None None None (?B3 t))"
  let ?B1 = "\<lambda>t. If (Num 0) (Case lbl Break) (Switch (Num 0) (For None None None (?B2 t)))"
  have l3: "loop k a None None (?B3 Continue) s = loop k a None None (?B3 Null) s"
    for k and s :: "'a state"
    by (rule loop_cong1) simp
  have i2: "iter k a None None (?B2 Continue) r = iter k a None None (?B2 Null) r"
    for k and r :: "outcome \<times> 'a state"
    by (rule iter_cong1) simp
  have r1: "exec k a Run (?B1 Continue) s = exec k a Run (?B1 Null) s"
    for k and s :: "'a state"
    by (simp add: l3 i2)
  have l1: "loop k a None None (?B1 Continue) s = loop k a None None (?B1 Null) s"
    for k and s :: "'a state"
    by (rule loop_cong1) (rule r1)
  show ?thesis
  proof (cases m)
    case Run
    then show ?thesis by (simp add: co_yield_def l1)
  next
    case (Seek_case v)
    then show ?thesis by (simp add: co_yield_def)
  next
    case (Seek_label l)
    then show ?thesis by (simp add: co_yield_def)
  qed
qed

lemma region_cong:
  assumes "\<And>k m s. exec k a m (item_stmt x) s = exec k a m (item_stmt x') s"
  shows "exec n a m (region (pre @ x # post)) s = exec n a m (region (pre @ x' # post)) s"
proof (induction pre arbitrary: m s)
  case Nil
  show ?case by (simp add: region_Cons assms)
next
  case (Cons y pre)
  show ?case by (simp add: region_Cons Cons.IH split: prod.splits outcome.splits)
qed

lemma reenter_cong:
  assumes "\<And>k m s. exec k a m b s = exec k a m b' s"
  shows "exec n a m (co_reenter b) s = exec n a m (co_reenter b') s"
proof -
  let ?B = "\<lambda>b. If (Num 0)
          (Seq (Goto ''_co_continue_'') (Labelled ''_co_continue_'' Continue))
          (If (Num 0)
             (Seq (Goto ''_co_break_'') (Labelled ''_co_break_'' Break))
             (Switch Deref (Case 0 b)))"
  have run: "exec k a Run (?B b) s = exec k a Run (?B b') s" for k s
    by (simp add: assms)
  have any: "exec k a m (?B b) s = exec k a m (?B b') s" for k s
    by (simp add: assms split: mode.splits)
  show ?thesis
    unfolding co_reenter_def
    by (simp only: exec.simps(11) any loop_cong1 [of a "?B b" "?B b'", OF run]
        iter_cong1 [of a "?B b" "?B b'", OF run])
qed

lemma call_cong:
  assumes "\<And>k m s. exec k a m f s = exec k a m f' s"
  shows "call n a m f s = call n a m f' s"
  by (induction n arbitrary: m s) (simp_all add: assms split: prod.splits outcome.splits)

lemma invoke_cong:
  assumes "\<And>k m s. exec k a m b s = exec k a m b' s"
  shows "invoke n a b c = invoke n a b' c"
  unfolding invoke_def by (intro call_cong reenter_cong assms)

lemma drive_cong:
  assumes "\<And>c. invoke n a b c = invoke n a b' c"
  shows "drive k n a b c = drive k n a b' c"
  by (induction k arbitrary: c) (simp_all add: assms split: prod.splits outcome.splits)

lemma invoke_fork_any_fuel:
  assumes "a \<noteq> N"
  shows "fst (invoke k a (region (map Plain seg @ Fork N e # post)) CO_CTX_INIT) = Timeout"
proof -
  let ?body = "region (map Plain seg @ Fork N e # post)"
  consider "k = 0" | "k = Suc 0" | m where "k = Suc (Suc m)"
    by (metis nat.exhaust)
  then show ?thesis
  proof cases
    case 1
    then show ?thesis by (simp add: invoke_def)
  next
    case 2
    then show ?thesis
      by (simp add: invoke_def CO_CTX_INIT_def co_reenter_def loop_timeout holds_def)
  next
    case 3
    have "enter m a ?body CO_CTX_INIT =
        (Timeout, fork_spin m N e ((emits seg \<lparr>label = 0, trace = []\<rparr>)\<lparr>label := - N - 1\<rparr>))"
      using assms by (simp add: enter_def CO_CTX_INIT_def run_to_fork)
    from invoke_timeout [OF _ this] show ?thesis
      by (simp add: 3 CO_CTX_INIT_def)
  qed
qed

lemma scope_result:
  assumes "r = (out, \<lparr>label = l', trace = map (\<lambda>x. (x, l0)) seg @ tail\<rparr>)"
    and "\<forall>x\<in>set seg. Plain x \<in> set items"
    and "\<forall>(x, l)\<in>set tail. co_is_child l \<longrightarrow> (\<exists>N. Fork N x \<in> set items \<and> l = - N - 1)"
    and "out = Normal \<longrightarrow> \<not> co_is_child l'"
  shows "(\<exists>seg tail.
            trace (snd r) = map (\<lambda>x. (x, l0)) seg @ tail \<and>
            (\<forall>x\<in>set seg. Plain x \<in> set items) \<and>
            (\<forall>(x, l)\<in>set tail. co_is_child l \<longrightarrow> (\<exists>N. Fork N x \<in> set items \<and> l = - N - 1))) \<and>
         (fst r = Normal \<longrightarrow> \<not> co_is_child (label (snd r)))"
proof -
  have "trace (snd r) = map (\<lambda>x. (x, l0)) seg @ tail"
    by (simp add: assms(1))
  with assms(2,3) have "trace (snd r) = map (\<lambda>x. (x, l0)) seg @ tail \<and>
            (\<forall>x\<in>set seg. Plain x \<in> set items) \<and>
            (\<forall>(x, l)\<in>set tail. co_is_child l \<longrightarrow> (\<exists>N. Fork N x \<in> set items \<and> l = - N - 1))"
    by (intro conjI)
  then have "\<exists>seg tail.
            trace (snd r) = map (\<lambda>x. (x, l0)) seg @ tail \<and>
            (\<forall>x\<in>set seg. Plain x \<in> set items) \<and>
            (\<forall>(x, l)\<in>set tail. co_is_child l \<longrightarrow> (\<exists>N. Fork N x \<in> set items \<and> l = - N - 1))"
    by (intro exI)
  moreover have "fst r = Normal \<longrightarrow> \<not> co_is_child (label (snd r))"
    using assms(4) by (simp add: assms(1))
  ultimately show ?thesis ..
qed

lemma child_flag_invocation:
  assumes "\<forall>N t. Yield N t \<in> set items \<longrightarrow> 0 < N"
    and "\<forall>N e. Fork N e \<in> set items \<longrightarrow> 0 < N \<and> a \<noteq> N"
  shows "(\<exists>seg tail.
            trace (snd (invoke (Suc (Suc (Suc (Suc m)))) a (region items) c))
              = map (\<lambda>x. (x, label c)) seg @ tail \<and>
            (\<forall>x\<in>set seg. Plain x \<in> set items) \<and>
            (\<forall>(x, l)\<in>set tail. co_is_child l \<longrightarrow> (\<exists>N. Fork N x \<in> set items \<and> l = - N - 1))) \<and>
         (fst (invoke (Suc (Suc (Suc (Suc m)))) a (region items) c) = Normal \<longrightarrow>
            \<not> co_is_child (label (snd (invoke (Suc (Suc (Suc (Suc m)))) a (region items) c))))"
proof -
  let ?r = "invoke (Suc (Suc (Suc (Suc m)))) a (region items) c"
  have parent: "\<not> co_is_child (- 1)"
    by (simp add: co_is_child_def)
  show ?thesis
  proof (cases "label c = - 1")
    case True
    then have r: "?r = (Normal, \<lparr>label = - 1, trace = map (\<lambda>x. (x, label c)) [] @ []\<rparr>)"
      by (simp add: invoke_ready)
    show ?thesis
      by (rule scope_result [OF r]) (simp_all add: parent)
  next
    case live: False
    show ?thesis
    proof (cases "target (label c) items")
      case None
      have r: "?r = (Normal, \<lparr>label = - 1, trace = map (\<lambda>x. (x, label c)) [] @ []\<rparr>)"
        using invoke_ctx_none [OF None live] by simp
      show ?thesis
        by (rule scope_result [OF r]) (simp_all add: parent)
    next
      case (Some post)
      from plain_prefix [of post] obtain seg rest
        where post: "post = map Plain seg @ rest" and rest: "\<forall>x r. rest \<noteq> Plain x # r"
        by (elim exE conjE)
      have sub: "set post \<subseteq> set items"
        using Some by (rule target_subset)
      then have seg: "\<forall>x\<in>set seg. Plain x \<in> set items"
        by (auto simp add: post)
      show ?thesis
      proof (cases rest)
        case Nil
        have t: "target (label c) items = Some (map Plain seg)"
          using Some by (simp add: post Nil)
        have r: "?r = (Normal, \<lparr>label = - 1, trace = map (\<lambda>y. (y, label c)) seg @ []\<rparr>)"
          using invoke_ctx_end [OF t live] by simp
        show ?thesis
          by (rule scope_result [OF r seg]) (simp_all add: parent)
      next
        case (Cons y r)
        show ?thesis
        proof (cases y)
          case (Plain x)
          with rest Cons show ?thesis by simp
        next
          case (Yield N u)
          have "Yield N u \<in> set items"
            using sub by (auto simp add: post Cons Yield)
          then have N: "0 < N"
            using assms(1) by blast
          have t: "target (label c) items = Some (map Plain seg @ Yield N u # r)"
            using Some by (simp add: post Cons Yield)
          have r: "?r = (Normal, \<lparr>label = (if u = Kw_break then - 1 else N),
                   trace = map (\<lambda>y. (y, label c)) seg @ operand_events N u\<rparr>)"
            by (rule invoke_ctx_yield [OF t live])
          have ev: "\<forall>(x, l)\<in>set (operand_events N u).
                  co_is_child l \<longrightarrow> (\<exists>N. Fork N x \<in> set items \<and> l = - N - 1)"
            using N by (cases u) (simp_all add: co_is_child_def)
          have "\<not> co_is_child (if u = Kw_break then - 1 else N)"
            using N by (simp add: co_is_child_def)
          then show ?thesis
            by (intro scope_result [OF r seg ev]) simp
        next
          case (Fork N e)
          have mem: "Fork N e \<in> set items"
            using sub by (auto simp add: post Cons Fork)
          then have N: "0 < N" "a \<noteq> N"
            using assms(2) by blast+
          have t: "target (label c) items = Some (map Plain seg @ Fork N e # r)"
            using Some by (simp add: post Cons Fork)
          have r: "?r = (Timeout, \<lparr>label = N,
                   trace = map (\<lambda>y. (y, label c)) seg @ (e, - N - 1) # replicate (Suc m) (e, N)\<rparr>)"
            by (rule invoke_ctx_fork [OF t live N(2)])
          have ev: "\<forall>(x, l)\<in>set ((e, - N - 1) # replicate (Suc m) (e, N)).
                  co_is_child l \<longrightarrow> (\<exists>N. Fork N x \<in> set items \<and> l = - N - 1)"
            using N(1) mem by (auto simp add: co_is_child_def)
          show ?thesis
            by (rule scope_result [OF r seg ev]) simp
        qed
      qed
    qed
  qed
qed

section \<open>The claims\<close>

text \<open>
  C1 (resume at the exact point). First conjunct: in every straight-line body, for the
  suspend point \<^verbatim>\<open>co_yield t\<close> with id \<open>N > 0\<close> (whose case label does not occur earlier in
  the body), the switch of \<^verbatim>\<open>co_reenter\<close>, looking for \<^verbatim>\<open>case N:\<close> in its body (\<^verbatim>\<open>case 0:\<close>
  and the region), does what the statements \<open>post\<close> after the suspend point do when they
  are executed from their start in the same state: no statement before them is executed,
  none of them is skipped. The others: for the body
  \<open>chain ps final\<close> with \<open>k = length ps\<close> suspend points (distinct positive ids, none
  of them \<^verbatim>\<open>co_yield break\<close>), \<open>k + 1\<close> invocations in a row from a fresh context all
  return and are \<open>visits 0 ps final\<close>; the statements they execute, one invocation
  after the other, are the statements of the body in body order, each once; and the
  labels they leave are the ids of the suspend points, in order, and then \<open>-1\<close>.
  (\<open>4 \<le> n\<close>: each loop is given the few rounds a suspend takes.)
\<close>

theorem resume_at_exact_point:
  assumes "0 < N" and "\<forall>y\<in>set pre. \<not> has_case N y"
    and "distinct (map (\<lambda>p. fst (snd p)) ps)"
    and "\<forall>p\<in>set ps. 0 < fst (snd p) \<and> snd (snd p) \<noteq> Kw_break"
    and "4 \<le> n"
  shows "exec n a (Seek_case N) (Case 0 (region (pre @ Yield N t # post))) s
           = exec n a Run (region post) s \<and>
         drive (Suc (length ps)) n a (region (chain ps final)) CO_CTX_INIT = visits 0 ps final \<and>
         concat (map (\<lambda>r. map fst (trace (snd r)))
                   (drive (Suc (length ps)) n a (region (chain ps final)) CO_CTX_INIT))
           = statements (chain ps final) \<and>
         map (\<lambda>r. label (snd r)) (drive (Suc (length ps)) n a (region (chain ps final)) CO_CTX_INIT)
           = map (\<lambda>p. fst (snd p)) ps @ [- 1]"
proof -
  have landing: "exec n a (Seek_case N) (Case 0 (region (pre @ Yield N t # post))) s
           = exec n a Run (region post) s"
    using assms(1,2) by (intro seek_lands) simp_all
  from assms(5) obtain m where "n = 4 + m"
    by (auto simp add: le_iff_add)
  then have n: "n = Suc (Suc (Suc (Suc m)))"
    by simp
  have "drive (Suc (length ps)) n a (region ([] @ chain ps final)) \<lparr>label = 0\<rparr> = visits 0 ps final"
    unfolding n using assms(3,4) by (intro drive_chain) (simp_all add: target_start)
  then have d: "drive (Suc (length ps)) n a (region (chain ps final)) CO_CTX_INIT = visits 0 ps final"
    by (simp add: CO_CTX_INIT_def)
  show ?thesis
    unfolding d using landing by (simp only: statements_visits labels_visits simp_thms)
qed

theorem resume_at_exact_point_witness:
  "(0::int) < 1 \<and> distinct [1, 2::int] \<and> (4::nat) \<le> 4 \<and>
   exec 4 4096 (Seek_case 1)
       (Case 0 (region [Plain ''A'', Yield 1 Nothing, Plain ''B'', Yield 2 Nothing, Plain ''C'']))
       \<lparr>label = 1, trace = []\<rparr>
     = (Jump ''_co_break_'', \<lparr>label = 2, trace = [(''B'', 1)]\<rparr>) \<and>
   drive 3 4 4096 (region [Plain ''A'', Yield 1 Nothing, Plain ''B'', Yield 2 Nothing, Plain ''C''])
       CO_CTX_INIT
     = [(Normal, \<lparr>label = 1, trace = [(''A'', 0)]\<rparr>),
        (Normal, \<lparr>label = 2, trace = [(''B'', 1)]\<rparr>),
        (Normal, \<lparr>label = - 1, trace = [(''C'', 2)]\<rparr>)]"
  using resume_at_exact_point [where N = 1 and pre = "[Plain ''A'']" and n = 4 and a = 4096
      and t = Nothing and post = "[Plain ''B'', Yield 2 Nothing, Plain ''C'']"
      and s = "\<lparr>label = 1, trace = []\<rparr>"
      and ps = "[([''A''], 1, Nothing), ([''B''], 2, Nothing)]" and final = "[''C'']"]
  by (simp add: eval_nat_numeral run_yield emit_def)

text \<open>
  C2 (the branch expression is evaluated once, then the label is reset). The code does
  not do this. The loop of \<^verbatim>\<open>co_fork\<close> is left through \<^verbatim>\<open>if (_co_label_ == (label))\<close>,
  which compares the pointer, not the label, with the id. At an address \<open>a\<close> other than
  the id the condition never holds: an invocation that reaches the branch point evaluates
  the expression \<open>e\<close> with the label \<open>-(N)-1\<close>, stores \<open>N\<close>, and evaluates \<open>e\<close> again and
  again with the label \<open>N\<close>; it never reaches the statement after the branch point, and
  for no number \<open>k\<close> of rounds has it returned. At the address \<open>N\<close> itself the
  condition holds at once: \<open>e\<close> is not evaluated at all and the label stays \<open>-(N)-1\<close>.
\<close>

theorem fork_expression_repeats:
  assumes "3 \<le> n" and "a \<noteq> N"
  shows "invoke n a (region (map Plain seg @ Fork N e # post)) CO_CTX_INIT
           = (Timeout, \<lparr>label = N,
                trace = map (\<lambda>x. (x, 0)) seg @ (e, - N - 1) # replicate (n - 3) (e, N)\<rparr>) \<and>
         fst (invoke k a (region (map Plain seg @ Fork N e # post)) CO_CTX_INIT) = Timeout \<and>
         invoke n N (region (map Plain seg @ Fork N e # map Plain seg')) CO_CTX_INIT
           = (Normal, \<lparr>label = - 1,
                trace = map (\<lambda>x. (x, 0)) seg @ map (\<lambda>x. (x, - N - 1)) seg'\<rparr>)"
proof -
  from assms(1) obtain m where "n = 3 + m"
    by (auto simp add: le_iff_add)
  then have n: "n = Suc (Suc (Suc m))"
    by simp
  have "target 0 (map Plain seg @ Fork N e # post) = Some (map Plain seg @ Fork N e # post)"
    by (rule target_start)
  from invoke_at_fork [where n = m and a = a, OF this _ assms(2)]
  have spin: "invoke n a (region (map Plain seg @ Fork N e # post)) CO_CTX_INIT
           = (Timeout, \<lparr>label = N,
                trace = map (\<lambda>x. (x, 0)) seg @ (e, - N - 1) # replicate (n - 3) (e, N)\<rparr>)"
    by (simp add: n CO_CTX_INIT_def)
  have "enter (Suc m) N (region (map Plain seg @ Fork N e # map Plain seg')) CO_CTX_INIT
          = (Normal, emits seg' ((emits seg \<lparr>label = 0, trace = []\<rparr>)\<lparr>label := - N - 1\<rparr>))"
    by (simp add: enter_def CO_CTX_INIT_def run_plains run_fork_same run_end)
  from invoke_end [OF _ this]
  have skip: "invoke n N (region (map Plain seg @ Fork N e # map Plain seg')) CO_CTX_INIT
           = (Normal, \<lparr>label = - 1,
                trace = map (\<lambda>x. (x, 0)) seg @ map (\<lambda>x. (x, - N - 1)) seg'\<rparr>)"
    by (simp add: n CO_CTX_INIT_def emits_def)
  from spin skip invoke_fork_any_fuel [OF assms(2)] show ?thesis
    by simp
qed

theorem fork_expression_repeats_witness:
  "(3::nat) \<le> 6 \<and> (4096::int) \<noteq> 1 \<and>
   invoke 6 4096 (region [Plain ''A'', Fork 1 ''copy'', Plain ''B'']) CO_CTX_INIT
     = (Timeout, \<lparr>label = 1,
          trace = [(''A'', 0), (''copy'', - 2), (''copy'', 1), (''copy'', 1), (''copy'', 1)]\<rparr>) \<and>
   invoke 6 1 (region [Plain ''A'', Fork 1 ''copy'', Plain ''B'']) CO_CTX_INIT
     = (Normal, \<lparr>label = - 1, trace = [(''A'', 0), (''B'', - 2)]\<rparr>)"
  using fork_expression_repeats [where n = 6 and a = 4096 and N = 1 and seg = "[''A'']"
      and e = "''copy''" and post = "[Plain ''B'']" and seg' = "[''B'']"]
  by (simp add: numeral_3_eq_3)

text \<open>
  C3, as stated, fails: after a dispatch on \<open>-(1)-1\<close> the next branch point stores its own
  labels, and its expression is evaluated with \<open>co_is_child\<close> false before any suspend
  point has been executed.
\<close>

theorem child_flag_before_suspend_counterexample:
  "invoke 6 4096 (region [Fork 1 ''e'', Fork 2 ''f'', Plain ''B'', Yield 3 Nothing]) \<lparr>label = - 2\<rparr>
     = (Timeout, \<lparr>label = 2, trace = [(''f'', - 3), (''f'', 2), (''f'', 2), (''f'', 2)]\<rparr>) \<and>
   \<not> co_is_child 2"
proof -
  have "target (- 2) [Fork 1 ''e'', Fork 2 ''f'', Plain ''B'', Yield 3 Nothing]
          = Some (map Plain [] @ Fork 2 ''f'' # [Plain ''B'', Yield 3 Nothing])"
    by (simp add: target_def)
  from invoke_at_fork [where n = 3 and a = 4096, OF this] show ?thesis
    by (simp add: eval_nat_numeral co_is_child_def)
qed

text \<open>
  C3, amended (the flag stays true until the next suspend point or branch point). For a
  branch point with id \<open>N > 0\<close> (whose case label does not occur earlier in the body),
  \<open>-(N)-1\<close> is a child label; the switch of \<^verbatim>\<open>co_reenter\<close>, looking for
  \<^verbatim>\<open>case -(N)-1:\<close> in its body, skips the statements before the branch point and the
  branch expression, executes the ordinary statements \<open>seg\<close> that follow the branch point
  with the label still \<open>-(N)-1\<close>, and goes on with what comes next, \<open>rest\<close>. When that
  is a suspend point with id \<open>M > 0\<close>, the invocation returns there with a label that is
  not a child label; when the body ends there, it returns with the label \<open>-1\<close>.
  (What a branch point that comes next does is the subject of C2.)
\<close>

theorem branch_continuation:
  assumes "0 < N" and "\<forall>y\<in>set pre. \<not> has_case (- N - 1) y" and "0 < M" and "4 \<le> n"
  shows "co_is_child (- N - 1) \<and>
         exec n a (Seek_case (- N - 1)) (Case 0 (region (pre @ Fork N e # map Plain seg @ rest)))
             \<lparr>label = - N - 1, trace = []\<rparr>
           = exec n a Run (region rest) \<lparr>label = - N - 1, trace = map (\<lambda>x. (x, - N - 1)) seg\<rparr> \<and>
         invoke n a (region (pre @ Fork N e # map Plain seg @ Yield M t # rest)) \<lparr>label = - N - 1\<rparr>
           = (Normal, \<lparr>label = (if t = Kw_break then - 1 else M),
                trace = map (\<lambda>x. (x, - N - 1)) seg @ operand_events M t\<rparr>) \<and>
         \<not> co_is_child (if t = Kw_break then - 1 else M) \<and>
         invoke n a (region (pre @ Fork N e # map Plain seg)) \<lparr>label = - N - 1\<rparr>
           = (Normal, \<lparr>label = - 1, trace = map (\<lambda>x. (x, - N - 1)) seg\<rparr>)"
proof -
  from fuel4 [OF assms(4)] obtain m where n: "n = Suc (Suc (Suc (Suc m)))" ..
  have v: "- N - 1 \<noteq> 0" "- N - 1 \<noteq> - 1"
    using assms(1) by simp_all
  have tv: "target (- N - 1) (pre @ Fork N e # post) = Some post" for post
    using v(1) assms(2) by (intro target_at) simp_all
  have "exec n a (Seek_case (- N - 1)) (Case 0 (region (pre @ Fork N e # map Plain seg @ rest)))
             \<lparr>label = - N - 1, trace = []\<rparr>
      = exec n a Run (region (map Plain seg @ rest)) \<lparr>label = - N - 1, trace = []\<rparr>"
    using v(1) assms(2) by (intro seek_lands) simp_all
  then have landing:
    "exec n a (Seek_case (- N - 1)) (Case 0 (region (pre @ Fork N e # map Plain seg @ rest)))
             \<lparr>label = - N - 1, trace = []\<rparr>
      = exec n a Run (region rest) \<lparr>label = - N - 1, trace = map (\<lambda>x. (x, - N - 1)) seg\<rparr>"
    by (simp add: run_plains emits_def)
  have susp: "invoke n a (region (pre @ Fork N e # map Plain seg @ Yield M t # rest)) \<lparr>label = - N - 1\<rparr>
           = (Normal, \<lparr>label = (if t = Kw_break then - 1 else M),
                trace = map (\<lambda>x. (x, - N - 1)) seg @ operand_events M t\<rparr>)"
    using invoke_at_yield [where n = m and a = a, OF tv v(2)]
    by (simp add: n operand_events_eq)
  have fall: "invoke n a (region (pre @ Fork N e # map Plain seg)) \<lparr>label = - N - 1\<rparr>
           = (Normal, \<lparr>label = - 1, trace = map (\<lambda>x. (x, - N - 1)) seg\<rparr>)"
    using invoke_at_end [where n = "Suc (Suc m)" and a = a, OF tv v(2)]
    by (simp add: n)
  show ?thesis
    using assms(1,3) landing susp fall by (simp add: co_is_child_def)
qed

theorem branch_continuation_witness:
  "(0::int) < 1 \<and> (0::int) < 2 \<and> (4::nat) \<le> 4 \<and> co_is_child (- 2) \<and>
   invoke 4 4096 (region [Plain ''A'', Fork 1 ''copy'', Plain ''B'', Yield 2 Nothing, Plain ''C''])
       \<lparr>label = - 2\<rparr>
     = (Normal, \<lparr>label = 2, trace = [(''B'', - 2)]\<rparr>) \<and>
   \<not> co_is_child 2"
  using branch_continuation [where N = 1 and pre = "[Plain ''A'']" and M = 2 and n = 4
      and a = 4096 and e = "''copy''" and seg = "[''B'']" and t = Nothing and rest = "[Plain ''C'']"]
  by simp

text \<open>
  C4 (idempotent termination). For every body, once the label is \<open>-1\<close> an invocation
  executes no statement of the body (its trace is empty) and leaves the label at \<open>-1\<close>;
  so does every one of any number \<open>k\<close> of invocations in a row. (\<open>0 < n\<close>: the
  invocation is given the time to test the loop condition once.)
\<close>

theorem terminated_stays_terminated:
  assumes "label c = - 1" and "0 < n"
  shows "invoke n a body c = (Normal, \<lparr>label = - 1, trace = []\<rparr>) \<and>
         drive k n a body c = replicate k (Normal, \<lparr>label = - 1, trace = []\<rparr>)"
proof -
  obtain m where "n = Suc m"
    using assms(2) by (cases n) auto
  with assms(1) show ?thesis
    by (simp add: invoke_ready drive_ready)
qed

theorem terminated_stays_terminated_witness:
  "label \<lparr>label = - 1\<rparr> = - 1 \<and> (0::nat) < 4 \<and>
   invoke 4 (4096::int) (region [Plain ''A'', Yield 1 Nothing, Plain ''B'']) \<lparr>label = - 1\<rparr>
     = (Normal, \<lparr>label = - 1, trace = []\<rparr>) \<and>
   drive 3 4 (4096::int) (region [Plain ''A'', Yield 1 Nothing, Plain ''B'']) \<lparr>label = - 1\<rparr>
     = [(Normal, \<lparr>label = - 1, trace = []\<rparr>), (Normal, \<lparr>label = - 1, trace = []\<rparr>),
        (Normal, \<lparr>label = - 1, trace = []\<rparr>)]"
  using terminated_stays_terminated
    [of "\<lparr>label = - 1\<rparr>" 4 4096 "region [Plain ''A'', Yield 1 Nothing, Plain ''B'']" 3]
  by (simp add: numeral_3_eq_3)

text \<open>
  C5 (every exit other than an ordinary suspend leaves \<open>-1\<close>). Falling off the end of
  the body, and \<^verbatim>\<open>co_yield break\<close>, leave the label \<open>-1\<close>, both in the first invocation
  and in one that resumes after the suspend or branch point \<open>x\<close> with case label \<open>v\<close>;
  \<^verbatim>\<open>co_is_ready\<close> then holds.
\<close>

theorem exits_leave_minus_one:
  assumes "4 \<le> n" and "v \<noteq> 0" and "v \<noteq> - 1" and "has_case v x"
    and "\<forall>y\<in>set pre. \<not> has_case v y"
  shows "invoke n a (region (map Plain seg)) CO_CTX_INIT
           = (Normal, \<lparr>label = - 1, trace = map (\<lambda>y. (y, 0)) seg\<rparr>) \<and>
         invoke n a (region (pre @ x # map Plain seg)) \<lparr>label = v\<rparr>
           = (Normal, \<lparr>label = - 1, trace = map (\<lambda>y. (y, v)) seg\<rparr>) \<and>
         invoke n a (region (map Plain seg @ Yield N Kw_break # rest)) CO_CTX_INIT
           = (Normal, \<lparr>label = - 1, trace = map (\<lambda>y. (y, 0)) seg\<rparr>) \<and>
         invoke n a (region (pre @ x # map Plain seg @ Yield N Kw_break # rest)) \<lparr>label = v\<rparr>
           = (Normal, \<lparr>label = - 1, trace = map (\<lambda>y. (y, v)) seg\<rparr>) \<and>
         co_is_ready (snd (invoke n a (region (map Plain seg)) CO_CTX_INIT)) \<and>
         co_is_ready (snd (invoke n a (region (map Plain seg @ Yield N Kw_break # rest)) CO_CTX_INIT))"
proof -
  from fuel4 [OF assms(1)] obtain m where n: "n = Suc (Suc (Suc (Suc m)))" ..
  have t0: "target 0 items = Some items" for items :: "'a item list"
    by (rule target_start)
  have tv: "target v (pre @ x # post) = Some post" for post
    using assms(2,4,5) by (intro target_at)
  have a: "invoke n a (region (map Plain seg)) CO_CTX_INIT
           = (Normal, \<lparr>label = - 1, trace = map (\<lambda>y. (y, 0)) seg\<rparr>)"
    using invoke_at_end [where n = "Suc (Suc m)" and a = a and seg = seg, OF t0]
    by (simp add: n CO_CTX_INIT_def)
  have b: "invoke n a (region (pre @ x # map Plain seg)) \<lparr>label = v\<rparr>
           = (Normal, \<lparr>label = - 1, trace = map (\<lambda>y. (y, v)) seg\<rparr>)"
    using invoke_at_end [where n = "Suc (Suc m)" and a = a and seg = seg, OF tv assms(3)]
    by (simp add: n)
  have c: "invoke n a (region (map Plain seg @ Yield N Kw_break # rest)) CO_CTX_INIT
           = (Normal, \<lparr>label = - 1, trace = map (\<lambda>y. (y, 0)) seg\<rparr>)"
    using invoke_at_yield [where n = m and a = a and seg = seg and N = N and t = Kw_break
        and r = rest, OF t0]
    by (simp add: n CO_CTX_INIT_def)
  have d: "invoke n a (region (pre @ x # map Plain seg @ Yield N Kw_break # rest)) \<lparr>label = v\<rparr>
           = (Normal, \<lparr>label = - 1, trace = map (\<lambda>y. (y, v)) seg\<rparr>)"
    using invoke_at_yield [where n = m and a = a and seg = seg and N = N and t = Kw_break
        and r = rest, OF tv assms(3)]
    by (simp add: n)
  show ?thesis
    unfolding a b c d by (simp add: co_is_ready_def)
qed

theorem exits_leave_minus_one_witness:
  "(4::nat) \<le> 4 \<and> (1::int) \<noteq> 0 \<and> (1::int) \<noteq> - 1 \<and> has_case 1 (Yield 1 Nothing) \<and>
   invoke 4 4096 (region [Plain ''A'', Yield 1 Nothing, Plain ''B'']) \<lparr>label = 1\<rparr>
     = (Normal, \<lparr>label = - 1, trace = [(''B'', 1)]\<rparr>) \<and>
   invoke 4 4096 (region [Plain ''A'', Yield 1 Nothing, Plain ''B'', Yield 2 Kw_break, Plain ''C''])
       \<lparr>label = 1\<rparr>
     = (Normal, \<lparr>label = - 1, trace = [(''B'', 1)]\<rparr>)"
  using exits_leave_minus_one [where n = 4 and v = 1 and x = "Yield 1 Nothing"
      and pre = "[Plain ''A'']" and seg = "[''B'']" and a = 4096 and N = 2 and rest = "[Plain ''C'']"]
  by simp

text \<open>
  C6 (restart resets fully). Whatever the label was, \<^verbatim>\<open>co_restart\<close> sets it to 0, which
  makes the context equal to one initialised with \<^verbatim>\<open>CO_CTX_INIT\<close>; so one invocation, and
  any number of invocations in a row, of any body do after \<^verbatim>\<open>co_restart\<close> what they do on
  a fresh context (at the same address).
\<close>

theorem restart_is_fresh:
  "label (co_restart c) = 0 \<and> co_restart c = CO_CTX_INIT \<and>
   invoke n a body (co_restart c) = invoke n a body CO_CTX_INIT \<and>
   drive k n a body (co_restart c) = drive k n a body CO_CTX_INIT"
proof -
  have "co_restart c = CO_CTX_INIT"
    by (cases c) (simp add: co_restart_def CO_CTX_INIT_def)
  then show ?thesis
    by (simp add: CO_CTX_INIT_def)
qed

text \<open>
  C7, as stated, fails: in an invocation dispatched on the label 0 the expression of a
  branch point is evaluated with \<open>co_is_child\<close> true.
\<close>

theorem child_flag_in_parent_counterexample:
  "invoke 4 4096 (region [Plain ''A'', Fork 1 ''copy'', Plain ''B'']) CO_CTX_INIT
     = (Timeout, \<lparr>label = 1, trace = [(''A'', 0), (''copy'', - 2), (''copy'', 1)]\<rparr>) \<and>
   co_is_child (- 2) \<and> \<not> co_is_child (label CO_CTX_INIT)"
proof -
  have "target 0 [Plain ''A'', Fork 1 ''copy'', Plain ''B'']
          = Some (map Plain [''A''] @ Fork 1 ''copy'' # [Plain ''B''])"
    by (simp add: target_def)
  from invoke_at_fork [where n = 1 and a = 4096, OF this] show ?thesis
    by (simp add: eval_nat_numeral co_is_child_def CO_CTX_INIT_def)
qed

text \<open>
  C7, amended (the flag is also true while a branch expression is evaluated). In a
  straight-line body with positive ids, at an address that is none of the branch ids, the
  events of an invocation are: first ordinary statements of the body, executed with the
  label the invocation was dispatched on (so with \<open>co_is_child\<close> true exactly when that
  label is a child label), and then events of which only the evaluation of a branch
  expression, with the label \<open>-(N)-1\<close> of its branch point, has \<open>co_is_child\<close> true. An
  invocation that returns leaves a label that is not a child label, and every
  \<^verbatim>\<open>co_yield\<close>, whatever follows the keyword, stores its id \<open>M > 0\<close>, which is not one.
\<close>

theorem child_flag_scope:
  assumes "\<forall>N t. Yield N t \<in> set items \<longrightarrow> 0 < N"
    and "\<forall>N e. Fork N e \<in> set items \<longrightarrow> 0 < N \<and> a \<noteq> N"
    and "0 < M" and "4 \<le> n"
  shows "(\<exists>seg tail.
            trace (snd (invoke n a (region items) c)) = map (\<lambda>x. (x, label c)) seg @ tail \<and>
            (\<forall>x\<in>set seg. Plain x \<in> set items) \<and>
            (\<forall>(x, l)\<in>set tail. co_is_child l \<longrightarrow> (\<exists>N. Fork N x \<in> set items \<and> l = - N - 1))) \<and>
         (fst (invoke n a (region items) c) = Normal \<longrightarrow>
            \<not> co_is_child (label (snd (invoke n a (region items) c)))) \<and>
         label (snd (exec n a Run (co_yield M (operand_stmt t)) s)) = M \<and> \<not> co_is_child M"
proof -
  from fuel4 [OF assms(4)] obtain m where n: "n = Suc (Suc (Suc (Suc m)))" ..
  have "exec n a Run (item_stmt (Yield M t)) s = yielded M t s"
    unfolding n by (rule yield_run)
  then have "label (snd (exec n a Run (co_yield M (operand_stmt t)) s)) = M"
    by (cases t) (simp_all add: item_stmt.simps)
  moreover have "\<not> co_is_child M"
    using assms(3) by (simp add: co_is_child_def)
  ultimately show ?thesis
    using child_flag_invocation [OF assms(1,2), of m c] unfolding n by (intro conjI) blast+
qed

theorem child_flag_scope_witness:
  "invoke 4 4096 (region [Plain ''A'', Fork 1 ''copy'', Plain ''B'', Yield 2 Nothing, Plain ''C''])
       \<lparr>label = - 2\<rparr>
     = (Normal, \<lparr>label = 2, trace = [(''B'', - 2)]\<rparr>) \<and>
   \<not> co_is_child (label (snd (invoke 4 4096
       (region [Plain ''A'', Fork 1 ''copy'', Plain ''B'', Yield 2 Nothing, Plain ''C''])
       \<lparr>label = - 2\<rparr>))) \<and>
   label (snd (exec 4 4096 Run (co_yield 2 (operand_stmt Kw_break))
       \<lparr>label = - 2, trace = [(''B'', - 2)]\<rparr>)) = 2"
proof -
  let ?items = "[Plain ''A'', Fork 1 ''copy'', Plain ''B'', Yield 2 Nothing, Plain ''C'']"
  have y: "\<forall>N t. Yield N t \<in> set ?items \<longrightarrow> 0 < N"
    by simp
  have f: "\<forall>N e. Fork N e \<in> set ?items \<longrightarrow> 0 < N \<and> (4096::int) \<noteq> N"
    by simp
  have "target (- 2) ?items = Some (map Plain [''B''] @ Yield 2 Nothing # [Plain ''C''])"
    by (simp add: target_def)
  from invoke_at_yield [where n = 0 and a = 4096, OF this]
  have r: "invoke 4 4096 (region ?items) \<lparr>label = - 2\<rparr>
             = (Normal, \<lparr>label = 2, trace = [(''B'', - 2)]\<rparr>)"
    by (simp add: eval_nat_numeral)
  from child_flag_scope [OF y f, where M = 2 and n = 4 and c = "\<lparr>label = - 2\<rparr>"
      and t = Kw_break and s = "\<lparr>label = - 2, trace = [(''B'', - 2)]\<rparr>"]
  show ?thesis
    by (simp add: r)
qed

text \<open>
  C8 (\<^verbatim>\<open>co_yield continue\<close> is \<^verbatim>\<open>co_yield\<close>). The two statements do the same in every
  state, however they are entered and whatever time they are given: both store the id
  and leave by \<^verbatim>\<open>goto _co_break_\<close>. So at every position of every straight-line body,
  replacing one by the other changes neither an invocation nor any number of invocations
  in a row, on any context.
\<close>

theorem yield_continue_is_yield:
  "exec n a m (co_yield lbl Continue) (s :: 'a state) = exec n a m (co_yield lbl Null) s \<and>
   exec (Suc (Suc n)) a Run (co_yield lbl Continue) s = (Jump ''_co_break_'', s\<lparr>label := lbl\<rparr>) \<and>
   exec (Suc (Suc n)) a Run (co_yield lbl Null) s = (Jump ''_co_break_'', s\<lparr>label := lbl\<rparr>) \<and>
   invoke n a (region (pre @ Yield lbl Kw_continue # post)) c
     = (invoke n a (region (pre @ Yield lbl Nothing # post)) c :: outcome \<times> 'a state) \<and>
   drive k n a (region (pre @ Yield lbl Kw_continue # post)) c
     = drive k n a (region (pre @ Yield lbl Nothing # post)) c"
proof -
  have item: "exec k a m (item_stmt (Yield lbl Kw_continue)) s
      = exec k a m (item_stmt (Yield lbl Nothing)) s" for k m and s :: "'a state"
    by (simp add: item_stmt.simps yield_continue_stmt)
  have body: "exec k a m (region (pre @ Yield lbl Kw_continue # post)) s
      = exec k a m (region (pre @ Yield lbl Nothing # post)) s" for k m and s :: "'a state"
    by (rule region_cong) (rule item)
  have inv: "invoke n a (region (pre @ Yield lbl Kw_continue # post)) c
     = invoke n a (region (pre @ Yield lbl Nothing # post)) c" for c
    by (rule invoke_cong) (rule body)
  have drv: "drive k n a (region (pre @ Yield lbl Kw_continue # post)) c
     = drive k n a (region (pre @ Yield lbl Nothing # post)) c"
    by (rule drive_cong) (rule inv)
  have "exec (Suc (Suc n)) a Run (item_stmt (Yield lbl Kw_continue)) s = yielded lbl Kw_continue s"
       "exec (Suc (Suc n)) a Run (item_stmt (Yield lbl Nothing)) s = yielded lbl Nothing s"
    by (rule yield_run)+
  then have "exec (Suc (Suc n)) a Run (co_yield lbl Continue) s = (Jump ''_co_break_'', s\<lparr>label := lbl\<rparr>)"
    "exec (Suc (Suc n)) a Run (co_yield lbl Null) s = (Jump ''_co_break_'', s\<lparr>label := lbl\<rparr>)"
    by (simp_all add: item_stmt.simps)
  with yield_continue_stmt inv drv show ?thesis
    by blast
qed

text \<open>
  C9 (the label is stored before the expression is evaluated). \<^verbatim>\<open>co_yield e;\<close> with id
  \<open>N > 0\<close> evaluates \<open>e\<close> when the label is already \<open>N\<close>, in every state: that is the
  label a copy of the context made by \<open>e\<close> carries. In a body, the first invocation ends
  with the event \<open>(e, N)\<close>, and the switch of \<^verbatim>\<open>co_reenter\<close>, looking for \<^verbatim>\<open>case N:\<close>,
  executes the statements after the suspend point from their start. So an invocation of
  the function on a context with the label \<open>N\<close>, and on one with the label recorded in
  the last event of the first invocation (the copy \<open>e\<close> made), executes the ordinary
  statements \<open>seg'\<close> after the suspend point and nothing else, up to the end of the body
  or to the next suspend point: the statements before the suspend point and \<open>e\<close> are not
  executed again.
\<close>

theorem label_stored_before_expression:
  assumes "0 < N" and "4 \<le> n"
  shows "exec n a Run (co_yield N (Do e)) s
           = (Jump ''_co_break_'', s\<lparr>label := N, trace := trace s @ [(e, N)]\<rparr>) \<and>
         invoke n a (region (map Plain seg @ Yield N (Expr e) # post)) CO_CTX_INIT
           = (Normal, \<lparr>label = N, trace = map (\<lambda>x. (x, 0)) seg @ [(e, N)]\<rparr>) \<and>
         exec n a (Seek_case N) (Case 0 (region (map Plain seg @ Yield N (Expr e) # post)))
             \<lparr>label = N, trace = []\<rparr>
           = exec n a Run (region post) \<lparr>label = N, trace = []\<rparr> \<and>
         invoke n a (region (map Plain seg @ Yield N (Expr e) # map Plain seg')) \<lparr>label = N\<rparr>
           = (Normal, \<lparr>label = - 1, trace = map (\<lambda>x. (x, N)) seg'\<rparr>) \<and>
         invoke n a (region (map Plain seg @ Yield N (Expr e) # map Plain seg' @ Yield M t # rest))
             \<lparr>label = N\<rparr>
           = (Normal, \<lparr>label = (if t = Kw_break then - 1 else M),
                trace = map (\<lambda>x. (x, N)) seg' @ operand_events M t\<rparr>) \<and>
         invoke n a (region (map Plain seg @ Yield N (Expr e) # map Plain seg' @ Yield M t # rest))
             \<lparr>label = snd (last (trace (snd (invoke n a
                (region (map Plain seg @ Yield N (Expr e) # map Plain seg' @ Yield M t # rest))
                CO_CTX_INIT))))\<rparr>
           = (Normal, \<lparr>label = (if t = Kw_break then - 1 else M),
                trace = map (\<lambda>x. (x, N)) seg' @ operand_events M t\<rparr>)"
proof -
  from fuel4 [OF assms(2)] obtain m where n: "n = Suc (Suc (Suc (Suc m)))" ..
  have live: "N \<noteq> - 1" "N \<noteq> 0"
    using assms(1) by simp_all
  have "exec n a Run (item_stmt (Yield N (Expr e))) s = yielded N (Expr e) s"
    unfolding n by (rule yield_run)
  then have stmt: "exec n a Run (co_yield N (Do e)) s
           = (Jump ''_co_break_'', s\<lparr>label := N, trace := trace s @ [(e, N)]\<rparr>)"
    by (simp add: item_stmt.simps emit_def)
  have t0: "target 0 (map Plain seg @ Yield N (Expr e) # post)
          = Some (map Plain seg @ Yield N (Expr e) # post)" for post
    by (rule target_start)
  have first: "invoke n a (region (map Plain seg @ Yield N (Expr e) # post)) CO_CTX_INIT
           = (Normal, \<lparr>label = N, trace = map (\<lambda>x. (x, 0)) seg @ [(e, N)]\<rparr>)" for post
    using invoke_at_yield [where n = m and a = a, OF t0] by (simp add: n CO_CTX_INIT_def)
  have land: "exec n a (Seek_case N) (Case 0 (region (map Plain seg @ Yield N (Expr e) # post)))
             \<lparr>label = N, trace = []\<rparr>
           = exec n a Run (region post) \<lparr>label = N, trace = []\<rparr>"
    using assms(1) by (intro seek_lands) auto
  have tN: "target N (map Plain seg @ Yield N (Expr e) # post) = Some post" for post
    using live(2) by (intro target_at) auto
  have fall: "invoke n a (region (map Plain seg @ Yield N (Expr e) # map Plain seg')) \<lparr>label = N\<rparr>
           = (Normal, \<lparr>label = - 1, trace = map (\<lambda>x. (x, N)) seg'\<rparr>)"
    using invoke_at_end [where n = "Suc (Suc m)" and a = a, OF tN live(1)] by (simp add: n)
  have susp:
    "invoke n a (region (map Plain seg @ Yield N (Expr e) # map Plain seg' @ Yield M t # rest))
             \<lparr>label = N\<rparr>
           = (Normal, \<lparr>label = (if t = Kw_break then - 1 else M),
                trace = map (\<lambda>x. (x, N)) seg' @ operand_events M t\<rparr>)"
    using invoke_at_yield [where n = m and a = a, OF tN live(1)]
    by (simp add: n operand_events_eq)
  have copy: "snd (last (trace (snd (invoke n a
                (region (map Plain seg @ Yield N (Expr e) # map Plain seg' @ Yield M t # rest))
                CO_CTX_INIT)))) = N"
    by (simp add: first)
  show ?thesis
    unfolding copy using stmt first land fall susp by (intro conjI)
qed

theorem label_stored_before_expression_witness:
  "(0::int) < 7 \<and> (4::nat) \<le> 5 \<and>
   invoke 5 4096 (region [Plain ''A'', Yield 7 (Expr ''async_read''), Plain ''B'']) CO_CTX_INIT
     = (Normal, \<lparr>label = 7, trace = [(''A'', 0), (''async_read'', 7)]\<rparr>) \<and>
   exec 5 4096 (Seek_case 7)
       (Case 0 (region [Plain ''A'', Yield 7 (Expr ''async_read''), Plain ''B'']))
       \<lparr>label = 7, trace = []\<rparr>
     = (Normal, \<lparr>label = 7, trace = [(''B'', 7)]\<rparr>) \<and>
   invoke 5 4096 (region [Plain ''A'', Yield 7 (Expr ''async_read''), Plain ''B'']) \<lparr>label = 7\<rparr>
     = (Normal, \<lparr>label = - 1, trace = [(''B'', 7)]\<rparr>)"
  using label_stored_before_expression [where N = 7 and n = 5 and a = 4096 and seg = "[''A'']"
      and e = "''async_read''" and post = "[Plain ''B'']" and seg' = "[''B'']"]
  by (simp add: emit_def)

text \<open>
  C10 (the C++ wrapper). \<^verbatim>\<open>restart()\<close> does to the embedded context what \<^verbatim>\<open>co_restart\<close>
  does, \<^verbatim>\<open>is_ready()\<close>, \<^verbatim>\<open>is_parent()\<close> and \<^verbatim>\<open>is_child()\<close> return what \<^verbatim>\<open>co_is_ready\<close>,
  \<^verbatim>\<open>co_is_parent\<close> and \<^verbatim>\<open>co_is_child\<close> yield on it, and a default-constructed object has
  label 0, is not ready and is not a child.
\<close>

theorem wrapper_agrees:
  "to_co_ctx (restart coro) = co_restart (to_co_ctx coro) \<and>
   is_ready coro = co_is_ready (to_co_ctx coro) \<and>
   is_parent coro = co_is_parent (label (to_co_ctx coro)) \<and>
   is_child coro = co_is_child (label (to_co_ctx coro)) \<and>
   label (to_co_ctx Coroutine_new) = 0 \<and>
   \<not> is_ready Coroutine_new \<and>
   \<not> is_child Coroutine_new"
  by (simp add: to_co_ctx_def restart_def is_ready_def co_is_ready_def is_parent_def
      co_is_parent_def is_child_def co_is_child_def Coroutine_new_def CO_CTX_INIT_def)

end
